theory Spec2Isabelle
  imports Main "HOL-Library.Word" "HOL-Library.Sublist" "HOL-Library.AList"
begin

section \<open>Errors and strings\<close>

text \<open>
  A Go \<open>error\<close> is modelled by the text its \<open>Error()\<close> method returns, so that
  \<open>fmt.Errorf("prefix: %w", err)\<close> is the concatenation of the prefix and the text of
  the wrapped error. A call that can fail returns \<open>error + 'a\<close> (\<open>Inl\<close> the error) or,
  where it returns an error only, \<open>error option\<close> (\<open>None\<close> is Go's \<open>nil\<close>).
\<close>

type_synonym error = string

text \<open>The double quote of the Go format strings, which Isabelle's inner syntax cannot hold.\<close>

definition dq :: string where
  "dq = [CHR 0x22]"

section \<open>\<open>contains\<close> (main.go, lines 252--259)\<close>

fun contains :: "string list \<Rightarrow> string \<Rightarrow> bool" where
  "contains [] v = False"
| "contains (item # rest) v = (if item = v then True else contains rest v)"

section \<open>Library functions used by \<open>getDatabases\<close> and \<open>getTables\<close>\<close>

text \<open>
  \<open>strings.Split(s, sep)\<close> for a separator of one byte: the segments of \<open>s\<close> between
  the separators, in order; \<open>n\<close> separators give \<open>n + 1\<close> segments, some possibly empty.
  The first argument of \<open>split_from\<close> is the current segment, read so far, reversed.
\<close>

fun split_from :: "string \<Rightarrow> char \<Rightarrow> string \<Rightarrow> string list" where
  "split_from seg sep [] = [rev seg]"
| "split_from seg sep (c # cs) =
     (if c = sep then rev seg # split_from [] sep cs else split_from (c # seg) sep cs)"

definition Split :: "string \<Rightarrow> char \<Rightarrow> string list" where
  "Split s sep = split_from [] sep s"

text \<open>
  \<open>bufio.Scanner\<close> with its default split function \<open>ScanLines\<close> and its default
  buffer: a line ends at a newline, one carriage return before the newline is dropped
  (\<open>dropCR\<close>), a last line without newline is returned when it is not empty, and the scan
  stops with \<open>ErrTooLong\<close> when \<open>MaxScanTokenSize\<close> bytes hold no newline.
  The first argument of \<open>scan_lines\<close> is the current line, read so far, reversed.
\<close>

definition MaxScanTokenSize :: nat where
  "MaxScanTokenSize = 64 * 1024"

definition ErrTooLong :: error where
  "ErrTooLong = ''bufio.Scanner: token too long''"

definition dropCR :: "string \<Rightarrow> string" where
  "dropCR data = (if data \<noteq> [] \<and> last data = CHR 0x0D then butlast data else data)"

fun scan_lines :: "string \<Rightarrow> string \<Rightarrow> error + string list" where
  "scan_lines line [] = (if line = [] then Inr [] else Inr [dropCR (rev line)])"
| "scan_lines line (c # cs) =
     (if c = CHR 0x0A then
        (case scan_lines [] cs of
           Inl e \<Rightarrow> Inl e
         | Inr rest \<Rightarrow> Inr (dropCR (rev line) # rest))
      else if MaxScanTokenSize \<le> Suc (length line) then Inl ErrTooLong
      else scan_lines (c # line) cs)"

section \<open>\<open>getDatabases\<close> (main.go, lines 161--192) and \<open>getTables\<close> (lines 194--221)\<close>

text \<open>
  The loop of lines 180--185 over the scanned lines, with the slice \<open>databases\<close> built so
  far as its accumulator.
\<close>

fun skip_loop :: "string list \<Rightarrow> string list \<Rightarrow> string list \<Rightarrow> string list" where
  "skip_loop skipDBList databases [] = databases"
| "skip_loop skipDBList databases (database # rest) =
     (if \<not> contains skipDBList database
      then skip_loop skipDBList (databases @ [database]) rest
      else skip_loop skipDBList databases rest)"

text \<open>
  \<open>cmd_output\<close> is what \<open>cmd.Output()\<close> of the \<open>mysql\<close> client returned: its error, or
  the bytes of its standard output.
\<close>

definition getDatabases :: "error + string \<Rightarrow> string \<Rightarrow> error + string list" where
  "getDatabases cmd_output skipDBs =
     (case cmd_output of
        Inl e \<Rightarrow> Inl (''failed to execute mysql command: '' @ e)
      | Inr output \<Rightarrow>
          (let skipDBList = Split skipDBs (CHR '','') in
           case scan_lines [] output of
             Inl e \<Rightarrow> Inl (''failed to read output from mysql command: '' @ e)
           | Inr scanned \<Rightarrow> Inr (skip_loop skipDBList [] scanned)))"

definition getTables :: "error + string \<Rightarrow> error + string list" where
  "getTables cmd_output =
     (case cmd_output of
        Inl e \<Rightarrow> Inl (''failed to execute mysql command: '' @ e)
      | Inr output \<Rightarrow>
          (case scan_lines [] output of
             Inl e \<Rightarrow> Inl (''failed to read output from mysql command: '' @ e)
           | Inr tables \<Rightarrow> Inr tables))"

section \<open>The timestamp: \<open>time.Now().Format("2006-01-02-15")\<close> (main.go, line 98)\<close>

text \<open>
  A reading of the clock, as the fields of the local civil time that \<open>Format\<close> reads.
\<close>

record time =
  year :: int
  month :: int
  day :: int
  hour :: int
  minute :: int
  second :: int

text \<open>The decimal digits of a natural number, most significant first.\<close>

fun decimal :: "nat \<Rightarrow> string" where
  "decimal n = (if n < 10 then [char_of (48 + n)] else decimal (n div 10) @ [char_of (48 + n mod 10)])"

declare decimal.simps [simp del]

text \<open>
  \<open>appendInt\<close> of package \<open>time\<close>: a minus sign for a negative number, then the decimal
  digits, padded with zeros on the left to \<open>width\<close> digits.
\<close>

definition appendInt :: "int \<Rightarrow> nat \<Rightarrow> string" where
  "appendInt x width =
     (let ds = decimal (nat \<bar>x\<bar>) in
      (if x < 0 then ''-'' else []) @ replicate (width - length ds) (CHR ''0'') @ ds)"

text \<open>The layout \<open>"2006-01-02-15"\<close>: year, month, day and hour of the 24-hour clock.\<close>

definition Format :: "time \<Rightarrow> string" where
  "Format t =
     appendInt (year t) 4 @ ''-'' @ appendInt (month t) 2 @ ''-'' @
     appendInt (day t) 2 @ ''-'' @ appendInt (hour t) 2"

section \<open>Object names\<close>

text \<open>\<open>fmt.Sprintf("%s/%s/%s", hostname, time.Now().Format(...), database)\<close>, line 98.\<close>

definition backupPath :: "string \<Rightarrow> time \<Rightarrow> string \<Rightarrow> string" where
  "backupPath hostname now database = hostname @ ''/'' @ Format now @ ''/'' @ database"

text \<open>\<open>fmt.Sprintf("%s/%s.sql.gz", *backupPath, *table)\<close>, line 224.\<close>

definition object_name :: "string \<Rightarrow> string \<Rightarrow> string" where
  "object_name path table = path @ ''/'' @ table @ ''.sql.gz''"

text \<open>The Object Key of a table: both steps together.\<close>

definition object_key :: "string \<Rightarrow> time \<Rightarrow> string \<Rightarrow> string \<Rightarrow> string" where
  "object_key hostname now database table = object_name (backupPath hostname now database) table"

section \<open>\<open>uploadToGCS\<close> (main.go, lines 223--250)\<close>

text \<open>
  The object store, the compressor and the pipe are outside the program. What each call
  to them returns is an input of the model: \<open>None\<close> when the call succeeds, the error
  otherwise. \<open>copy_err\<close> is the result of \<open>io.Copy\<close> from the dump's pipe into the
  chain of writers, the others are the results of \<open>bufWriter.Flush\<close>,
  \<open>gzipWriter.Close\<close>, \<open>writer.Close\<close> and \<open>object.Attrs\<close>.
\<close>

record upload_env =
  copy_err :: "error option"
  flush_err :: "error option"
  gzip_close_err :: "error option"
  writer_close_err :: "error option"
  attrs_err :: "error option"

text \<open>The calls a transfer makes, in the order it makes them.\<close>

datatype gcs_op =
  NewWriter string
| Copy
| Flush
| GzipClose
| WriterClose
| Attrs string

text \<open>The result of \<open>uploadToGCS\<close>: the error it returns and the calls it has made.\<close>

definition uploadToGCS :: "upload_env \<Rightarrow> string \<Rightarrow> string \<Rightarrow> error option \<times> gcs_op list" where
  "uploadToGCS env path table =
     (let object = object_name path table in
      case copy_err env of
        Some e \<Rightarrow>
          (Some (''failed to upload backup for table '' @ dq @ table @ dq @ '' to GCS: '' @ e),
           [NewWriter object, Copy])
      | None \<Rightarrow>
      (case flush_err env of
        Some e \<Rightarrow>
          (Some (''failed to close bufWriter: '' @ e), [NewWriter object, Copy, Flush])
      | None \<Rightarrow>
      (case gzip_close_err env of
        Some e \<Rightarrow>
          (Some (''failed to close gzipWriter: '' @ e),
           [NewWriter object, Copy, Flush, GzipClose])
      | None \<Rightarrow>
      (case writer_close_err env of
        Some e \<Rightarrow>
          (Some (''failed to close writer: '' @ e),
           [NewWriter object, Copy, Flush, GzipClose, WriterClose])
      | None \<Rightarrow>
      (case attrs_err env of
        Some e \<Rightarrow>
          (Some (''failed to retrieve attributes for GCS object: '' @ e),
           [NewWriter object, Copy, Flush, GzipClose, WriterClose, Attrs object])
      | None \<Rightarrow>
          (None, [NewWriter object, Copy, Flush, GzipClose, WriterClose, Attrs object]))))))"

section \<open>The Table Backup Task (main.go, lines 97--140)\<close>

text \<open>
  What the task's surroundings give it: \<open>now\<close> is the reading of the clock at line 98,
  \<open>pipe_err\<close>, \<open>start_err\<close> and \<open>wait_err\<close> are the results of \<open>cmd.StdoutPipe\<close>,
  \<open>cmd.Start\<close> and \<open>cmd.Wait\<close> of the \<open>mysqldump\<close> process (\<open>cmd.Wait\<close> returns an
  error when the process exits with a non-zero status), \<open>upload\<close> is what the calls of the
  transfer return.
\<close>

record task_env =
  now :: time
  pipe_err :: "error option"
  start_err :: "error option"
  upload :: upload_env
  wait_err :: "error option"

text \<open>
  The \<open>mysqldump\<close> process when the task returns: never started, started and not waited
  for, or waited for (reaped).
\<close>

datatype process = NotStarted | Started | Waited

record task_result =
  task_error :: "error option"
  task_process :: process
  task_ops :: "gcs_op list"

definition backupTable :: "string \<Rightarrow> string \<Rightarrow> string \<Rightarrow> task_env \<Rightarrow> task_result" where
  "backupTable hostname database table env =
     (let path = backupPath hostname (now env) database in
      case pipe_err env of
        Some e \<Rightarrow>
          \<lparr>task_error = Some (''failed to create stdout pipe for mysqldump command: '' @ e),
           task_process = NotStarted, task_ops = []\<rparr>
      | None \<Rightarrow>
      (case start_err env of
        Some e \<Rightarrow>
          \<lparr>task_error = Some (''failed to start mysqldump command: '' @ e),
           task_process = NotStarted, task_ops = []\<rparr>
      | None \<Rightarrow>
      (case uploadToGCS (upload env) path table of
        (Some e, ops) \<Rightarrow>
          \<lparr>task_error = Some (''failed to upload backup for table '' @ dq @ database @ ''.'' @
               table @ dq @ '' to GCS: '' @ e),
           task_process = Started, task_ops = ops\<rparr>
      | (None, ops) \<Rightarrow>
      (case wait_err env of
        Some e \<Rightarrow>
          \<lparr>task_error = Some (''failed to wait for mysqldump command: '' @ e),
           task_process = Waited, task_ops = ops\<rparr>
      | None \<Rightarrow>
          \<lparr>task_error = None, task_process = Waited, task_ops = ops\<rparr>))))"

section \<open>The two \<open>errgroup\<close> levels of \<open>main\<close> (main.go, lines 77--156)\<close>

text \<open>
  What a run is given: the host name, the list \<open>getDatabases\<close> returned, the two limits
  (Go's \<open>uint\<close>, taken at 64 bits), what \<open>cmd.Output()\<close> of \<open>SHOW TABLES\<close> returns
  for each database, and the surroundings of the task of each table.
\<close>

record config =
  cfg_hostname :: string
  cfg_databases :: "string list"
  cfg_dbLimit :: "64 word"
  cfg_tableLimit :: "64 word"
  cfg_tables_output :: "string \<Rightarrow> error + string"
  cfg_table_env :: "string \<Rightarrow> string \<Rightarrow> task_env"

text \<open>The Table Backup Task of one table in a run.\<close>

definition run_task :: "config \<Rightarrow> string \<Rightarrow> string \<Rightarrow> task_result" where
  "run_task cfg database table =
     backupTable (cfg_hostname cfg) database table (cfg_table_env cfg database table)"

text \<open>
  \<open>errgroup.Group\<close> as \<open>main\<close> uses it. \<open>new(errgroup.Group)\<close> has no context and no
  cancel function. \<open>SetLimit(n)\<close> makes a semaphore of \<open>n\<close> slots, and none when \<open>n\<close> is
  negative; \<open>Go\<close> takes a slot, waiting until one is free, and starts the goroutine;
  a goroutine that returns gives its slot back, and when it returns an error and none
  is recorded yet, its error is recorded (\<open>errOnce\<close>); \<open>Wait\<close> returns the recorded
  error once every goroutine has returned. \<open>admits limit active\<close> says that \<open>Go\<close> can
  start a goroutine when \<open>active\<close> of them hold a slot.
\<close>

definition admits :: "int \<Rightarrow> nat \<Rightarrow> bool" where
  "admits limit active = (limit < 0 \<or> int active < limit)"

definition first_error :: "error option \<Rightarrow> error option \<Rightarrow> error option" where
  "first_error recorded returned = (case recorded of Some e \<Rightarrow> Some e | None \<Rightarrow> returned)"

text \<open>
  A Database Backup Job that has its tables (lines 91--150): the tables the loop of
  line 94 has not yet given to \<open>tableGroup.Go\<close>, the tables whose tasks are running,
  and the error of \<open>tableGroup\<close>.
\<close>

record job =
  job_database :: string
  job_pending :: "string list"
  job_active :: "string list"
  job_err :: "error option"

text \<open>
  A running job: \<open>ListFailed e\<close> when \<open>getTables\<close> failed and the job is about to return
  \<open>e\<close> (line 88), \<open>Backing\<close> otherwise.
\<close>

datatype job_state = ListFailed error | Backing job

text \<open>
  The run: the databases the loop of line 80 has not yet given to \<open>dbGroup.Go\<close>, the
  running jobs, each under the number of its turn in that loop, and the error of
  \<open>dbGroup\<close>.
\<close>

record run_state =
  next_id :: nat
  pending_dbs :: "string list"
  active_dbs :: "(nat \<times> job_state) list"
  group_err :: "error option"

definition init :: "config \<Rightarrow> run_state" where
  "init cfg = \<lparr>next_id = 0, pending_dbs = cfg_databases cfg, active_dbs = [], group_err = None\<rparr>"

text \<open>Lines 84--92: the job's first steps, up to the loop over its tables.\<close>

definition start_job :: "config \<Rightarrow> string \<Rightarrow> job_state" where
  "start_job cfg database =
     (case getTables (cfg_tables_output cfg database) of
        Inl e \<Rightarrow>
          ListFailed (''failed to retrieve list of tables for database '' @ database @ '': '' @ e)
      | Inr tables \<Rightarrow>
          Backing \<lparr>job_database = database, job_pending = tables, job_active = [],
                   job_err = None\<rparr>)"

text \<open>A job returns (lines 143--150, or line 88): its slot is free, its error is recorded.\<close>

definition job_returns :: "nat \<Rightarrow> error option \<Rightarrow> run_state \<Rightarrow> run_state" where
  "job_returns j r s =
     s\<lparr>active_dbs := AList.delete j (active_dbs s), group_err := first_error (group_err s) r\<rparr>"

text \<open>
  What can happen next in a run, the scheduler and the world outside choosing among
  them: \<open>dbGroup.Go\<close> starts the job of the next database; \<open>tableGroup.Go\<close> of job \<open>j\<close>
  starts the task of its next table; a task of job \<open>j\<close> returns; job \<open>j\<close> returns,
  after its \<open>tableGroup.Wait()\<close>.
\<close>

datatype event =
  GoDatabase
| GoTable nat
| TableReturns nat string
| DatabaseReturns nat

text \<open>One step of a run; \<open>None\<close> when the event cannot happen in the state.\<close>

fun step :: "config \<Rightarrow> run_state \<Rightarrow> event \<Rightarrow> run_state option" where
  "step cfg s GoDatabase =
     (case pending_dbs s of
        [] \<Rightarrow> None
      | database # rest \<Rightarrow>
          if admits (sint (cfg_dbLimit cfg)) (length (active_dbs s))
          then Some (s\<lparr>next_id := Suc (next_id s), pending_dbs := rest,
                       active_dbs := (next_id s, start_job cfg database) # active_dbs s\<rparr>)
          else None)"
| "step cfg s (GoTable j) =
     (case map_of (active_dbs s) j of
        Some (Backing jb) \<Rightarrow>
          (case job_pending jb of
             [] \<Rightarrow> None
           | table # rest \<Rightarrow>
               if admits (sint (cfg_tableLimit cfg)) (length (job_active jb))
               then Some (s\<lparr>active_dbs := AList.update j
                             (Backing (jb\<lparr>job_pending := rest, job_active := table # job_active jb\<rparr>))
                             (active_dbs s)\<rparr>)
               else None)
      | _ \<Rightarrow> None)"
| "step cfg s (TableReturns j table) =
     (case map_of (active_dbs s) j of
        Some (Backing jb) \<Rightarrow>
          if table \<in> set (job_active jb)
          then Some (s\<lparr>active_dbs := AList.update j
                        (Backing (jb\<lparr>job_active := remove1 table (job_active jb),
                                    job_err := first_error (job_err jb)
                                      (task_error (run_task cfg (job_database jb) table))\<rparr>))
                        (active_dbs s)\<rparr>)
          else None
      | _ \<Rightarrow> None)"
| "step cfg s (DatabaseReturns j) =
     (case map_of (active_dbs s) j of
        None \<Rightarrow> None
      | Some (ListFailed e) \<Rightarrow> Some (job_returns j (Some e) s)
      | Some (Backing jb) \<Rightarrow>
          if job_pending jb = [] \<and> job_active jb = []
          then Some (job_returns j (job_err jb) s)
          else None)"

text \<open>A run: the events of a schedule, one after the other.\<close>

fun exec :: "config \<Rightarrow> event list \<Rightarrow> run_state \<Rightarrow> run_state option" where
  "exec cfg [] s = Some s"
| "exec cfg (ev # evs) s =
     (case step cfg s ev of None \<Rightarrow> None | Some s' \<Rightarrow> exec cfg evs s')"

text \<open>
  What \<open>dbGroup.Wait()\<close> returns at line 154, once the loop has given every database to
  \<open>dbGroup.Go\<close> and every job has returned; \<open>None\<close> while it waits.
\<close>

definition wait_result :: "run_state \<Rightarrow> error option option" where
  "wait_result s =
     (if pending_dbs s = [] \<and> active_dbs s = [] then Some (group_err s) else None)"

section \<open>The history of a run\<close>

text \<open>
  What a schedule says has already happened: the tables whose tasks have returned in
  job \<open>j\<close>, and the jobs that have returned, both in the order of their returns.
\<close>

fun table_returns :: "nat \<Rightarrow> event list \<Rightarrow> string list" where
  "table_returns j [] = []"
| "table_returns j (TableReturns k table # evs) =
     (if k = j then table # table_returns j evs else table_returns j evs)"
| "table_returns j (ev # evs) = table_returns j evs"

fun returned_jobs :: "event list \<Rightarrow> nat list" where
  "returned_jobs [] = []"
| "returned_jobs (DatabaseReturns j # evs) = j # returned_jobs evs"
| "returned_jobs (ev # evs) = returned_jobs evs"

text \<open>The first error in a list of results, \<open>None\<close> when none of them is an error.\<close>

fun first_failure :: "error option list \<Rightarrow> error option" where
  "first_failure [] = None"
| "first_failure (Some e # rs) = Some e"
| "first_failure (None # rs) = first_failure rs"

text \<open>
  The error of the first task of job \<open>j\<close>, in the order of their returns, that returned
  an error.
\<close>

definition table_failure :: "config \<Rightarrow> string \<Rightarrow> nat \<Rightarrow> event list \<Rightarrow> error option" where
  "table_failure cfg database j evs =
     first_failure (map (\<lambda>table. task_error (run_task cfg database table)) (table_returns j evs))"

text \<open>
  What job \<open>j\<close>, the job of the \<open>j\<close>-th database, returns: the error of \<open>getTables\<close>, or
  the error of its first failed task. It is read for the jobs of a run only, whose
  numbers are less than the number of databases.
\<close>

definition job_result :: "config \<Rightarrow> event list \<Rightarrow> nat \<Rightarrow> error option" where
  "job_result cfg evs j =
     (case start_job cfg (cfg_databases cfg ! j) of
        ListFailed e \<Rightarrow> Some e
      | Backing jb \<Rightarrow> table_failure cfg (job_database jb) j evs)"

text \<open>The object a task has opened for writing, when it has opened one.\<close>

fun written_object :: "gcs_op list \<Rightarrow> string option" where
  "written_object (NewWriter object # ops) = Some object"
| "written_object ops = None"

text \<open>
  Go's slices have no more than \<open>2 ^ 63 - 1\<close> elements (their length is an \<open>int\<close>):
  this holds of the list of databases and of every list of tables.
\<close>

definition slices_fit :: "config \<Rightarrow> bool" where
  "slices_fit cfg =
     (length (cfg_databases cfg) < 2 ^ 63 \<and>
      (\<forall>database tables. getTables (cfg_tables_output cfg database) = Inr tables \<longrightarrow>
         length tables < 2 ^ 63))"

section \<open>Invariants of a run\<close>

text \<open>
  \<open>within limit active\<close>: the goroutines that hold a slot are no more than the limit,
  when there is one.
\<close>

definition within :: "int \<Rightarrow> nat \<Rightarrow> bool" where
  "within limit active = (limit < 0 \<or> int active \<le> limit)"

definition job_bounded :: "config \<Rightarrow> job \<Rightarrow> bool" where
  "job_bounded cfg jb =
     (within (sint (cfg_tableLimit cfg)) (length (job_active jb)) \<and>
      length (job_active jb) + length (job_pending jb) < 2 ^ 63)"

definition bounded :: "config \<Rightarrow> run_state \<Rightarrow> bool" where
  "bounded cfg s =
     (within (sint (cfg_dbLimit cfg)) (length (active_dbs s)) \<and>
      length (active_dbs s) + length (pending_dbs s) \<le> length (cfg_databases cfg) \<and>
      (\<forall>j jb. map_of (active_dbs s) j = Some (Backing jb) \<longrightarrow> job_bounded cfg jb) \<and>
      distinct (map fst (active_dbs s)) \<and>
      (\<forall>j \<in> fst ` set (active_dbs s). j < next_id s))"

text \<open>
  What the state of a running job has to do with the history of the run: the job is
  the one \<open>start_job\<close> made of the \<open>j\<close>-th database, and the error of its
  \<open>tableGroup\<close> is the error of the first of its tasks that returned one.
\<close>

definition job_traced :: "config \<Rightarrow> event list \<Rightarrow> nat \<Rightarrow> job_state \<Rightarrow> bool" where
  "job_traced cfg evs j js =
     (case js of
        ListFailed e \<Rightarrow> start_job cfg (cfg_databases cfg ! j) = ListFailed e
      | Backing jb \<Rightarrow>
          (\<exists>jb0. start_job cfg (cfg_databases cfg ! j) = Backing jb0) \<and>
          job_database jb = cfg_databases cfg ! j \<and>
          job_err jb = table_failure cfg (cfg_databases cfg ! j) j evs)"

definition traced :: "config \<Rightarrow> event list \<Rightarrow> run_state \<Rightarrow> bool" where
  "traced cfg evs s =
     (pending_dbs s = drop (next_id s) (cfg_databases cfg) \<and>
      next_id s \<le> length (cfg_databases cfg) \<and>
      distinct (map fst (active_dbs s)) \<and>
      (\<forall>j \<in> fst ` set (active_dbs s). j < next_id s) \<and>
      (\<forall>j js. map_of (active_dbs s) j = Some js \<longrightarrow> job_traced cfg evs j js) \<and>
      (\<forall>j. next_id s \<le> j \<longrightarrow> table_returns j evs = []) \<and>
      (\<forall>j \<in> set (returned_jobs evs). j \<notin> fst ` set (active_dbs s) \<and> j < next_id s) \<and>
      group_err s = first_failure (map (job_result cfg evs) (returned_jobs evs)))"

section \<open>A run on two databases\<close>

text \<open>
  The inputs at which the theorems below are tried. The host is \<open>h\<close>; the server has
  the databases \<open>appdb\<close>, with the tables \<open>users\<close>, \<open>orders\<close> and \<open>items\<close>, and
  \<open>logsdb\<close>, with the table \<open>events\<close>; both limits are 1. The task of \<open>users\<close> reads
  the clock at 10:59, those of \<open>orders\<close>, \<open>items\<close> and \<open>events\<close> at 11:00, 11:30 and
  11:45 of the same day. Every call succeeds but for the \<open>mysqldump\<close> of \<open>orders\<close>,
  which exits with status 2.
\<close>

definition env_ok :: upload_env where
  "env_ok = \<lparr>copy_err = None, flush_err = None, gzip_close_err = None,
            writer_close_err = None, attrs_err = None\<rparr>"

definition clock :: "int \<Rightarrow> int \<Rightarrow> time" where
  "clock h m = \<lparr>year = 2024, month = 5, day = 1, hour = h, minute = m, second = 0\<rparr>"

definition task_ok :: "time \<Rightarrow> task_env" where
  "task_ok t = \<lparr>now = t, pipe_err = None, start_err = None, upload = env_ok, wait_err = None\<rparr>"

definition demo :: config where
  "demo =
     \<lparr>cfg_hostname = ''h'',
      cfg_databases = [''appdb'', ''logsdb''],
      cfg_dbLimit = 1,
      cfg_tableLimit = 1,
      cfg_tables_output =
        (\<lambda>database.
           if database = ''appdb''
           then Inr (''users'' @ [CHR 0x0A] @ ''orders'' @ [CHR 0x0A] @ ''items'' @ [CHR 0x0A])
           else if database = ''logsdb'' then Inr (''events'' @ [CHR 0x0A])
           else Inl ''exit status 1''),
      cfg_table_env =
        (\<lambda>database table.
           if table = ''users'' then task_ok (clock 10 59)
           else if table = ''orders'' then (task_ok (clock 11 0))\<lparr>wait_err := Some ''exit status 2''\<rparr>
           else if table = ''items'' then task_ok (clock 11 30)
           else task_ok (clock 11 45))\<rparr>"

text \<open>The error the task of \<open>orders\<close> returns.\<close>

definition orders_failed :: error where
  "orders_failed = ''failed to wait for mysqldump command: exit status 2''"

text \<open>
  A schedule of the whole run, one task at a time, and its first five and first eight
  events: up to the return of the task of \<open>orders\<close>, and up to the return of the job of
  \<open>appdb\<close>.
\<close>

definition until_orders :: "event list" where
  "until_orders =
     [GoDatabase, GoTable 0, TableReturns 0 ''users'', GoTable 0, TableReturns 0 ''orders'']"

definition until_appdb :: "event list" where
  "until_appdb = until_orders @ [GoTable 0, TableReturns 0 ''items'', DatabaseReturns 0]"

definition whole_run :: "event list" where
  "whole_run = until_appdb @ [GoDatabase, GoTable 1, TableReturns 1 ''events'', DatabaseReturns 1]"

section \<open>Evaluation on the example\<close>

lemma digit_chars:
  "char_of (48 :: nat) = CHR ''0''" "char_of (49 :: nat) = CHR ''1''"
  "char_of (50 :: nat) = CHR ''2''" "char_of (51 :: nat) = CHR ''3''"
  "char_of (52 :: nat) = CHR ''4''" "char_of (53 :: nat) = CHR ''5''"
  "char_of (54 :: nat) = CHR ''6''" "char_of (55 :: nat) = CHR ''7''"
  "char_of (56 :: nat) = CHR ''8''" "char_of (57 :: nat) = CHR ''9''"
  by code_simp+

lemmas time_defs =
  clock_def Format_def appendInt_def decimal.simps digit_chars backupPath_def object_name_def
  object_key_def Let_def

lemmas eval_defs =
  demo_def init_def start_job_def getTables_def MaxScanTokenSize_def dropCR_def admits_def
  first_error_def run_task_def backupTable_def uploadToGCS_def task_ok_def env_ok_def
  job_returns_def orders_failed_def until_orders_def until_appdb_def whole_run_def Let_def

lemma run_until_orders:
  "exec demo until_orders (init demo) =
     Some \<lparr>next_id = 1, pending_dbs = [''logsdb''],
       active_dbs = [(0, Backing \<lparr>job_database = ''appdb'', job_pending = [''items''],
                        job_active = [], job_err = Some orders_failed\<rparr>)],
       group_err = None\<rparr>"
  by (simp add: eval_defs)

lemma run_items_started:
  "exec demo (until_orders @ [GoTable 0]) (init demo) =
     Some \<lparr>next_id = 1, pending_dbs = [''logsdb''],
       active_dbs = [(0, Backing \<lparr>job_database = ''appdb'', job_pending = [],
                        job_active = [''items''], job_err = Some orders_failed\<rparr>)],
       group_err = None\<rparr>"
  by (simp add: eval_defs)

lemma run_until_appdb:
  "exec demo until_appdb (init demo) =
     Some \<lparr>next_id = 1, pending_dbs = [''logsdb''], active_dbs = [],
       group_err = Some orders_failed\<rparr>"
  by (simp add: eval_defs)

lemma run_logsdb_started:
  "exec demo (until_appdb @ [GoDatabase]) (init demo) =
     Some \<lparr>next_id = 2, pending_dbs = [],
       active_dbs = [(1, Backing \<lparr>job_database = ''logsdb'', job_pending = [''events''],
                        job_active = [], job_err = None\<rparr>)],
       group_err = Some orders_failed\<rparr>"
  by (simp add: eval_defs)

lemma run_whole:
  "exec demo whole_run (init demo) =
     Some \<lparr>next_id = 2, pending_dbs = [], active_dbs = [], group_err = Some orders_failed\<rparr>"
  by (simp add: eval_defs)

lemma slices_fit_demo: "slices_fit demo"
  by (auto simp: slices_fit_def demo_def getTables_def MaxScanTokenSize_def dropCR_def
      split: if_splits)

section \<open>Schema enumeration and the exclusion list\<close>

lemma contains_set: "contains xs v = (v \<in> set xs)"
  by (induction xs) auto

lemma skip_loop_filter:
  "skip_loop skip acc xs = acc @ filter (\<lambda>d. d \<notin> set skip) xs"
  by (induction xs arbitrary: acc) (simp_all add: contains_set)

lemma getDatabases_Inr:
  "getDatabases (Inr output) skipDBs =
     (case scan_lines [] output of
        Inl e \<Rightarrow> Inl (''failed to read output from mysql command: '' @ e)
      | Inr scanned \<Rightarrow> Inr (filter (\<lambda>d. d \<notin> set (Split skipDBs (CHR '',''))) scanned))"
  by (simp add: getDatabases_def skip_loop_filter split: sum.splits)

lemma getDatabases_set:
  assumes "getDatabases cmd_output skipDBs = Inr dbs"
  shows "set dbs \<inter> set (Split skipDBs (CHR '','')) = {}"
  using assms
  by (auto simp: getDatabases_def skip_loop_filter split: sum.splits)

lemma default_split:
  "Split ''information_schema,performance_schema,test'' (CHR '','') =
     [''information_schema'', ''performance_schema'', ''test'']"
  by (simp add: Split_def)

text \<open>
  Scenario 4 of the specification, with one more database: the server lists
  \<open>information_schema\<close>, \<open>test\<close>, \<open>appdb\<close> and \<open>logsdb\<close>, the exclusion list is the
  default; \<open>appdb\<close> and \<open>logsdb\<close> are left, the databases of the example.
\<close>

lemma enumeration_demo:
  "getDatabases
     (Inr (''information_schema'' @ [CHR 0x0A] @ ''test'' @ [CHR 0x0A] @ ''appdb'' @ [CHR 0x0A] @
           ''logsdb'' @ [CHR 0x0A]))
     ''information_schema,performance_schema,test'' = Inr (cfg_databases demo)"
  by (simp add: getDatabases_def Split_def MaxScanTokenSize_def dropCR_def demo_def)

section \<open>The timestamp and the object names\<close>

lemma digit_not_slash: "n < 10 \<Longrightarrow> char_of (48 + n :: nat) \<noteq> CHR ''/''"
proof
  assume n: "n < 10" and eq: "char_of (48 + n) = CHR ''/''"
  have "of_char (char_of (48 + n)) = (48 + n) mod 256" by (simp only: of_char_of)
  with n have "(of_char (char_of (48 + n)) :: nat) = 48 + n" by simp
  with eq have "(of_char (CHR ''/'') :: nat) = 48 + n" by simp
  then show False by simp
qed

lemma decimal_no_slash: "CHR ''/'' \<notin> set (decimal n)"
proof (induction n rule: decimal.induct)
  case (1 n)
  show ?case
  proof (cases "n < 10")
    case True
    then show ?thesis using digit_not_slash [of n] by (subst decimal.simps) auto
  next
    case False
    have "n mod 10 < 10" by simp
    then have "char_of (48 + n mod 10) \<noteq> CHR ''/''" by (rule digit_not_slash)
    with False 1 show ?thesis by (subst decimal.simps) auto
  qed
qed

lemma appendInt_no_slash: "CHR ''/'' \<notin> set (appendInt x w)"
  by (simp add: appendInt_def Let_def decimal_no_slash)

lemma Format_no_slash: "CHR ''/'' \<notin> set (Format t)"
  by (simp add: Format_def appendInt_no_slash)

lemma Format_hour:
  assumes "year a = year b" "month a = month b" "day a = day b" "hour a = hour b"
  shows "Format a = Format b"
  using assms by (simp add: Format_def)

lemma object_key_eq:
  "object_key hostname ts database table =
     hostname @ ''/'' @ Format ts @ ''/'' @ database @ ''/'' @ table @ ''.sql.gz''"
  by (simp add: object_key_def object_name_def backupPath_def)

lemma split_at_first:
  "c \<notin> set a \<Longrightarrow> c \<notin> set b \<Longrightarrow> a @ c # x = b @ c # y \<Longrightarrow> a = b \<and> x = y"
proof (induction a arbitrary: b)
  case Nil
  then show ?case by (cases b) auto
next
  case (Cons e a)
  then show ?case by (cases b) auto
qed

lemma split_at_last:
  assumes x: "c \<notin> set x" and y: "c \<notin> set y" and eq: "a @ c # x = b @ c # y"
  shows "a = b \<and> x = y"
proof -
  from eq have "rev (a @ c # x) = rev (b @ c # y)" by (rule arg_cong)
  then have r: "rev x @ c # rev a = rev y @ c # rev b" by simp
  have "c \<notin> set (rev x)" and "c \<notin> set (rev y)" using x y by simp_all
  then have "rev x = rev y \<and> rev a = rev b" using r by (rule split_at_first)
  then show ?thesis by simp
qed

lemma object_key_inj:
  assumes free: "CHR ''/'' \<notin> set d1 \<and> CHR ''/'' \<notin> set d2 \<or>
      CHR ''/'' \<notin> set t1 \<and> CHR ''/'' \<notin> set t2"
    and eq: "object_key h ts1 d1 t1 = object_key h ts2 d2 t2"
  shows "d1 = d2 \<and> t1 = t2"
proof -
  define sfx where "sfx = ''.sql.gz''"
  from eq have "Format ts1 @ CHR ''/'' # (d1 @ CHR ''/'' # t1 @ sfx) =
      Format ts2 @ CHR ''/'' # (d2 @ CHR ''/'' # t2 @ sfx)"
    by (simp add: object_key_eq sfx_def)
  with Format_no_slash Format_no_slash
  have "Format ts1 = Format ts2 \<and> d1 @ CHR ''/'' # t1 @ sfx = d2 @ CHR ''/'' # t2 @ sfx"
    by (rule split_at_first)
  then have rest: "d1 @ CHR ''/'' # (t1 @ sfx) = d2 @ CHR ''/'' # (t2 @ sfx)"
    by simp
  from free show ?thesis
  proof
    assume d: "CHR ''/'' \<notin> set d1 \<and> CHR ''/'' \<notin> set d2"
    then have "CHR ''/'' \<notin> set d1" and "CHR ''/'' \<notin> set d2" by simp_all
    then have "d1 = d2 \<and> t1 @ sfx = t2 @ sfx" using rest by (rule split_at_first)
    then show ?thesis by simp
  next
    assume t: "CHR ''/'' \<notin> set t1 \<and> CHR ''/'' \<notin> set t2"
    then have t1: "CHR ''/'' \<notin> set t1" and t2: "CHR ''/'' \<notin> set t2" by simp_all
    from rest have "(d1 @ CHR ''/'' # t1) @ sfx = (d2 @ CHR ''/'' # t2) @ sfx"
      by simp
    then have "d1 @ CHR ''/'' # t1 = d2 @ CHR ''/'' # t2"
      by (simp only: append_same_eq)
    with t1 t2 show ?thesis by (rule split_at_last)
  qed
qed

section \<open>Runs\<close>

subsection \<open>The limits\<close>

lemma length_update_present:
  "map_of al k = Some v' \<Longrightarrow> length (AList.update k v al) = length al"
  by (induction al) (auto split: if_splits)

lemma admits_within: "admits limit n \<Longrightarrow> within limit (Suc n)"
  by (auto simp: admits_def within_def)

lemma within_less: "within limit n \<Longrightarrow> m \<le> n \<Longrightarrow> within limit m"
  by (auto simp: within_def)

lemma bounded_init: "bounded cfg (init cfg)"
  by (auto simp: bounded_def init_def within_def)

lemma start_job_bounded:
  assumes "slices_fit cfg" and "start_job cfg d = Backing jb"
  shows "job_bounded cfg jb"
  using assms
  by (auto simp: start_job_def slices_fit_def job_bounded_def within_def split: sum.splits)

lemma bounded_GoDatabase:
  assumes fit: "slices_fit cfg" and b: "bounded cfg s" and st: "step cfg s GoDatabase = Some s'"
  shows "bounded cfg s'"
proof -
  from st obtain d rest where p: "pending_dbs s = d # rest"
    and adm: "admits (sint (cfg_dbLimit cfg)) (length (active_dbs s))"
    and s': "s' = s\<lparr>next_id := Suc (next_id s), pending_dbs := rest,
                   active_dbs := (next_id s, start_job cfg d) # active_dbs s\<rparr>"
    by (auto split: list.splits if_splits)
  have fresh: "next_id s \<notin> fst ` set (active_dbs s)"
    using b by (auto simp: bounded_def)
  show ?thesis
    unfolding bounded_def
  proof (intro conjI allI impI ballI)
    show "within (sint (cfg_dbLimit cfg)) (length (active_dbs s'))"
      using adm by (simp add: s' admits_within)
    show "length (active_dbs s') + length (pending_dbs s') \<le> length (cfg_databases cfg)"
      using b p by (simp add: s' bounded_def)
    show "distinct (map fst (active_dbs s'))"
      using b fresh by (simp add: s' bounded_def)
  next
    fix j jb assume "map_of (active_dbs s') j = Some (Backing jb)"
    then show "job_bounded cfg jb"
      using b start_job_bounded [OF fit]
      by (auto simp: s' bounded_def split: if_splits)
  next
    fix j assume "j \<in> fst ` set (active_dbs s')"
    then show "j < next_id s'"
      using b by (auto simp: s' bounded_def less_Suc_eq)
  qed
qed

lemma bounded_update:
  assumes b: "bounded cfg s" and present: "map_of (active_dbs s) j = Some js"
    and new: "\<And>jb. js' = Backing jb \<Longrightarrow> job_bounded cfg jb"
  shows "bounded cfg (s\<lparr>active_dbs := AList.update j js' (active_dbs s)\<rparr>)"
proof -
  have j: "j \<in> fst ` set (active_dbs s)"
    using present by (metis domI dom_map_of_conv_image_fst)
  have keys: "fst ` set (AList.update j js' (active_dbs s)) = fst ` set (active_dbs s)"
    using j by (auto simp: AList.dom_update)
  show ?thesis
    using b new
    by (auto simp: bounded_def length_update_present [OF present] AList.update_conv'
        AList.distinct_update keys)
qed

lemma bounded_GoTable:
  assumes b: "bounded cfg s" and st: "step cfg s (GoTable j) = Some s'"
  shows "bounded cfg s'"
proof -
  from st obtain jb t rest where present: "map_of (active_dbs s) j = Some (Backing jb)"
    and p: "job_pending jb = t # rest"
    and adm: "admits (sint (cfg_tableLimit cfg)) (length (job_active jb))"
    and s': "s' = s\<lparr>active_dbs := AList.update j
               (Backing (jb\<lparr>job_pending := rest, job_active := t # job_active jb\<rparr>))
               (active_dbs s)\<rparr>"
    by (auto split: option.splits job_state.splits list.splits if_splits)
  have old: "job_bounded cfg jb"
    using b present by (auto simp: bounded_def)
  have "job_bounded cfg (jb\<lparr>job_pending := rest, job_active := t # job_active jb\<rparr>)"
    using old p adm by (simp add: job_bounded_def admits_within)
  then show ?thesis
    unfolding s' using b present by (intro bounded_update) auto
qed

lemma bounded_TableReturns:
  assumes b: "bounded cfg s" and st: "step cfg s (TableReturns j t) = Some s'"
  shows "bounded cfg s'"
proof -
  from st obtain jb where present: "map_of (active_dbs s) j = Some (Backing jb)"
    and t: "t \<in> set (job_active jb)"
    and s': "s' = s\<lparr>active_dbs := AList.update j
               (Backing (jb\<lparr>job_active := remove1 t (job_active jb),
                           job_err := first_error (job_err jb)
                             (task_error (run_task cfg (job_database jb) t))\<rparr>))
               (active_dbs s)\<rparr>"
    by (auto split: option.splits job_state.splits if_splits)
  have old: "job_bounded cfg jb"
    using b present by (auto simp: bounded_def)
  have "job_bounded cfg (jb\<lparr>job_active := remove1 t (job_active jb),
          job_err := first_error (job_err jb) (task_error (run_task cfg (job_database jb) t))\<rparr>)"
    using old t by (auto simp: job_bounded_def length_remove1 intro: within_less)
  then show ?thesis
    unfolding s' using b present by (intro bounded_update) auto
qed

lemma bounded_job_returns:
  assumes b: "bounded cfg s"
  shows "bounded cfg (job_returns j r s)"
proof -
  have len: "length (AList.delete j (active_dbs s)) \<le> length (active_dbs s)"
    by (rule AList.length_delete_le)
  have keys: "fst ` set (AList.delete j (active_dbs s)) \<subseteq> fst ` set (active_dbs s)"
    by (rule AList.dom_delete_subset)
  have "within (sint (cfg_dbLimit cfg)) (length (AList.delete j (active_dbs s)))"
    using b len by (auto simp: bounded_def intro: within_less)
  moreover have "length (AList.delete j (active_dbs s)) + length (pending_dbs s)
      \<le> length (cfg_databases cfg)"
    using b len by (simp add: bounded_def)
  moreover have "job_bounded cfg jb"
    if "map_of (AList.delete j (active_dbs s)) k = Some (Backing jb)" for k jb
    using b that by (auto simp: bounded_def AList.delete_conv' split: if_splits)
  moreover have "distinct (map fst (AList.delete j (active_dbs s)))"
    using b by (simp add: bounded_def AList.distinct_delete)
  moreover have "k < next_id s" if "k \<in> fst ` set (AList.delete j (active_dbs s))" for k
    using b keys that unfolding bounded_def by blast
  ultimately show ?thesis
    by (simp add: bounded_def job_returns_def)
qed

lemma bounded_DatabaseReturns:
  assumes b: "bounded cfg s" and st: "step cfg s (DatabaseReturns j) = Some s'"
  shows "bounded cfg s'"
  using st bounded_job_returns [OF b]
  by (auto split: option.splits job_state.splits if_splits)

lemma bounded_step:
  assumes "slices_fit cfg" and "bounded cfg s" and "step cfg s ev = Some s'"
  shows "bounded cfg s'"
  using assms
  by (cases ev)
    (auto intro: bounded_GoDatabase bounded_GoTable bounded_TableReturns bounded_DatabaseReturns)

lemma bounded_exec:
  assumes "slices_fit cfg"
  shows "bounded cfg s \<Longrightarrow> exec cfg evs s = Some s' \<Longrightarrow> bounded cfg s'"
proof (induction evs arbitrary: s)
  case Nil
  then show ?case by simp
next
  case (Cons ev evs)
  from Cons.prems(2) obtain s1 where s1: "step cfg s ev = Some s1" and rest: "exec cfg evs s1 = Some s'"
    by (auto split: option.splits)
  from bounded_step [OF assms Cons.prems(1) s1] rest show ?case
    by (rule Cons.IH)
qed

lemma le_unat: "int n \<le> uint w \<Longrightarrow> n \<le> unat w"
proof -
  assume a: "int n \<le> uint w"
  have "int (unat w) = uint w" by simp
  with a have "int n \<le> int (unat w)" by simp
  then show ?thesis by (simp only: of_nat_le_iff)
qed

lemma within_unat:
  fixes w :: "64 word"
  assumes "within (sint w) n" and "n < 2 ^ 63"
  shows "n \<le> unat w"
proof -
  have u: "uint w = sint w mod 2 ^ 64"
    by (simp add: uint_sint take_bit_eq_mod)
  have lo: "- (2 ^ 63) \<le> sint w" and hi: "sint w < 2 ^ 63"
    using sint_ge [of w] sint_lt [of w] by simp_all
  have n: "int n < 2 ^ 63"
    using of_nat_less_iff [of n "2 ^ 63", where ?'a = int] assms(2) by simp
  have "int n \<le> uint w"
  proof (cases "sint w < 0")
    case True
    have "sint w mod 2 ^ 64 = (sint w + 2 ^ 64) mod 2 ^ 64"
      by simp
    also have "\<dots> = sint w + 2 ^ 64"
      using lo True by (intro mod_pos_pos_trivial) simp_all
    finally have "2 ^ 63 \<le> uint w"
      using lo u by simp
    with n show ?thesis by simp
  next
    case False
    then have "sint w mod 2 ^ 64 = sint w"
      using hi by (intro mod_pos_pos_trivial) simp_all
    with False assms(1) u show ?thesis
      by (simp add: within_def)
  qed
  then show ?thesis by (rule le_unat)
qed

subsection \<open>The history\<close>

lemma table_returns_append:
  "table_returns j (xs @ ys) = table_returns j xs @ table_returns j ys"
  by (induction j xs rule: table_returns.induct) simp_all

lemma returned_jobs_append:
  "returned_jobs (xs @ ys) = returned_jobs xs @ returned_jobs ys"
  by (induction xs rule: returned_jobs.induct) simp_all

lemma first_failure_snoc:
  "first_failure (rs @ [r]) = first_error (first_failure rs) r"
proof (induction rs rule: first_failure.induct)
  case 1
  show ?case by (cases r) (simp_all add: first_error_def)
qed (simp_all add: first_error_def)

lemma start_job_database: "start_job cfg d = Backing jb \<Longrightarrow> job_database jb = d \<and> job_err jb = None"
  by (auto simp: start_job_def split: sum.splits)

lemma tracedD:
  assumes "traced cfg evs s"
  shows "pending_dbs s = drop (next_id s) (cfg_databases cfg)"
    and "next_id s \<le> length (cfg_databases cfg)"
    and "distinct (map fst (active_dbs s))"
    and "\<And>j. j \<in> fst ` set (active_dbs s) \<Longrightarrow> j < next_id s"
    and "\<And>j js. map_of (active_dbs s) j = Some js \<Longrightarrow> job_traced cfg evs j js"
    and "\<And>j. next_id s \<le> j \<Longrightarrow> table_returns j evs = []"
    and "\<And>j. j \<in> set (returned_jobs evs) \<Longrightarrow> j \<notin> fst ` set (active_dbs s)"
    and "\<And>j. j \<in> set (returned_jobs evs) \<Longrightarrow> j < next_id s"
    and "group_err s = first_failure (map (job_result cfg evs) (returned_jobs evs))"
  using assms unfolding traced_def by blast+

lemma traced_init: "traced cfg [] (init cfg)"
  by (simp add: traced_def init_def)

lemma job_result_cong:
  "table_returns j evs' = table_returns j evs \<Longrightarrow> job_result cfg evs' j = job_result cfg evs j"
  by (simp add: job_result_def table_failure_def split: job_state.splits)

lemma job_traced_cong:
  "table_returns j evs' = table_returns j evs \<Longrightarrow> job_traced cfg evs' j js = job_traced cfg evs j js"
  by (simp add: job_traced_def table_failure_def split: job_state.splits)

lemma job_result_same:
  assumes "\<And>j. table_returns j evs' = table_returns j evs"
  shows "job_result cfg evs' = job_result cfg evs"
  using assms by (intro ext job_result_cong)

lemma key_present: "map_of al k = Some v \<Longrightarrow> k \<in> fst ` set al"
  by (metis domI dom_map_of_conv_image_fst)

lemma traced_GoDatabase:
  assumes t: "traced cfg evs s" and st: "step cfg s GoDatabase = Some s'"
  shows "traced cfg (evs @ [GoDatabase]) s'"
proof -
  note T = tracedD [OF t]
  from st obtain d rest where p: "pending_dbs s = d # rest"
    and s': "s' = s\<lparr>next_id := Suc (next_id s), pending_dbs := rest,
                   active_dbs := (next_id s, start_job cfg d) # active_dbs s\<rparr>"
    by (auto split: list.splits if_splits)
  let ?n = "next_id s"
  let ?evs = "evs @ [GoDatabase]"
  have dr: "drop ?n (cfg_databases cfg) = d # rest"
    using T(1) p by simp
  then have n: "?n < length (cfg_databases cfg)"
    by (metis drop_all list.distinct(1) not_le)
  have d: "cfg_databases cfg ! ?n = d"
    using dr n by (metis Cons_nth_drop_Suc list.inject)
  have rest: "rest = drop (Suc ?n) (cfg_databases cfg)"
    using dr n by (metis Cons_nth_drop_Suc list.inject)
  have same: "table_returns j ?evs = table_returns j evs" for j
    by (simp add: table_returns_append)
  have rj: "returned_jobs ?evs = returned_jobs evs"
    by (simp add: returned_jobs_append)
  have fresh: "?n \<notin> fst ` set (active_dbs s)"
    using T(4) by blast
  have none: "table_returns ?n evs = []"
    using T(6) by simp
  have new: "job_traced cfg ?evs ?n (start_job cfg d)"
    using none start_job_database [of cfg d]
    by (auto simp: job_traced_def d same table_failure_def split: job_state.splits)
  have keys: "fst ` set (active_dbs s') = insert ?n (fst ` set (active_dbs s))"
    by (simp add: s')
  show ?thesis
    unfolding traced_def
  proof (intro conjI allI impI ballI)
    show "pending_dbs s' = drop (next_id s') (cfg_databases cfg)"
      by (simp add: s' rest)
    show "next_id s' \<le> length (cfg_databases cfg)"
      using n by (simp add: s')
    show "distinct (map fst (active_dbs s'))"
      using T(3) fresh by (simp add: s')
    show "group_err s' = first_failure (map (job_result cfg ?evs) (returned_jobs ?evs))"
      using T(9) by (simp add: s' rj job_result_same [of ?evs evs, OF same])
  next
    fix j assume "j \<in> fst ` set (active_dbs s')"
    then have "j = ?n \<or> j \<in> fst ` set (active_dbs s)" by (simp only: keys insert_iff)
    then have "j \<le> ?n"
    proof
      assume "j = ?n"
      then show ?thesis by simp
    next
      assume "j \<in> fst ` set (active_dbs s)"
      then have "j < ?n" by (rule T(4))
      then show ?thesis by simp
    qed
    then show "j < next_id s'" by (simp add: s')
  next
    fix j js assume a: "map_of (active_dbs s') j = Some js"
    show "job_traced cfg ?evs j js"
    proof (cases "j = ?n")
      case True
      with a have "js = start_job cfg d" by (simp add: s')
      with new True show ?thesis by simp
    next
      case False
      with a have "map_of (active_dbs s) j = Some js" by (simp add: s')
      then have "job_traced cfg evs j js" by (rule T(5))
      then show ?thesis by (simp add: job_traced_cong [OF same])
    qed
  next
    fix j assume "next_id s' \<le> j"
    then have "?n \<le> j" by (simp add: s')
    then show "table_returns j ?evs = []"
      using T(6) by (simp add: same)
  next
    fix j assume j: "j \<in> set (returned_jobs ?evs)"
    then have old: "j \<in> set (returned_jobs evs)" by (simp add: rj)
    have "j \<noteq> ?n" using T(8) [OF old] by simp
    with T(7) [OF old] show "j \<notin> fst ` set (active_dbs s')"
      by (simp add: keys)
    show "j < next_id s'"
      using T(8) [OF old] by (simp add: s')
  qed
qed

lemma update_keys_present:
  "map_of al k = Some v' \<Longrightarrow> fst ` set (AList.update k v al) = fst ` set al"
  using key_present [of al k v'] by (auto simp: AList.dom_update)

lemma traced_GoTable:
  assumes t: "traced cfg evs s" and st: "step cfg s (GoTable j) = Some s'"
  shows "traced cfg (evs @ [GoTable j]) s'"
proof -
  note T = tracedD [OF t]
  from st obtain jb tb rest where present: "map_of (active_dbs s) j = Some (Backing jb)"
    and s': "s' = s\<lparr>active_dbs := AList.update j
               (Backing (jb\<lparr>job_pending := rest, job_active := tb # job_active jb\<rparr>))
               (active_dbs s)\<rparr>"
    by (auto split: option.splits job_state.splits list.splits if_splits)
  let ?evs = "evs @ [GoTable j]"
  let ?jb = "jb\<lparr>job_pending := rest, job_active := tb # job_active jb\<rparr>"
  have same: "table_returns k ?evs = table_returns k evs" for k
    by (simp add: table_returns_append)
  have rj: "returned_jobs ?evs = returned_jobs evs"
    by (simp add: returned_jobs_append)
  have keys: "fst ` set (active_dbs s') = fst ` set (active_dbs s)"
    by (simp add: s' update_keys_present [OF present])
  have old: "job_traced cfg evs j (Backing jb)"
    using present by (rule T(5))
  then have new: "job_traced cfg evs j (Backing ?jb)"
    by (simp add: job_traced_def)
  show ?thesis
    unfolding traced_def
  proof (intro conjI allI impI ballI)
    show "pending_dbs s' = drop (next_id s') (cfg_databases cfg)"
      using T(1) by (simp add: s')
    show "next_id s' \<le> length (cfg_databases cfg)"
      using T(2) by (simp add: s')
    show "distinct (map fst (active_dbs s'))"
      using T(3) by (simp add: s' AList.distinct_update)
    show "group_err s' = first_failure (map (job_result cfg ?evs) (returned_jobs ?evs))"
      using T(9) by (simp add: s' rj job_result_same [of ?evs evs, OF same])
  next
    fix k assume "k \<in> fst ` set (active_dbs s')"
    then have "k \<in> fst ` set (active_dbs s)" by (simp only: keys)
    then have "k < next_id s" by (rule T(4))
    then show "k < next_id s'" by (simp add: s')
  next
    fix k js assume a: "map_of (active_dbs s') k = Some js"
    show "job_traced cfg ?evs k js"
    proof (cases "k = j")
      case True
      with a have "js = Backing ?jb" by (simp add: s' AList.update_conv')
      with new True show ?thesis by (simp add: job_traced_cong [OF same])
    next
      case False
      with a have "map_of (active_dbs s) k = Some js" by (simp add: s' AList.update_conv')
      then have "job_traced cfg evs k js" by (rule T(5))
      then show ?thesis by (simp add: job_traced_cong [OF same])
    qed
  next
    fix k assume "next_id s' \<le> k"
    then have "next_id s \<le> k" by (simp add: s')
    then show "table_returns k ?evs = []"
      using T(6) by (simp add: same)
  next
    fix k assume "k \<in> set (returned_jobs ?evs)"
    then have old: "k \<in> set (returned_jobs evs)" by (simp add: rj)
    from T(7) [OF old] show "k \<notin> fst ` set (active_dbs s')" by (simp add: keys)
    from T(8) [OF old] show "k < next_id s'" by (simp add: s')
  qed
qed

lemma traced_TableReturns:
  assumes t: "traced cfg evs s" and st: "step cfg s (TableReturns j tb) = Some s'"
  shows "traced cfg (evs @ [TableReturns j tb]) s'"
proof -
  note T = tracedD [OF t]
  from st obtain jb where present: "map_of (active_dbs s) j = Some (Backing jb)"
    and s': "s' = s\<lparr>active_dbs := AList.update j
               (Backing (jb\<lparr>job_active := remove1 tb (job_active jb),
                           job_err := first_error (job_err jb)
                             (task_error (run_task cfg (job_database jb) tb))\<rparr>))
               (active_dbs s)\<rparr>"
    by (auto split: option.splits job_state.splits if_splits)
  let ?evs = "evs @ [TableReturns j tb]"
  let ?jb = "jb\<lparr>job_active := remove1 tb (job_active jb),
                 job_err := first_error (job_err jb)
                   (task_error (run_task cfg (job_database jb) tb))\<rparr>"
  have same: "table_returns k ?evs = table_returns k evs" if "k \<noteq> j" for k
    using that by (simp add: table_returns_append)
  have more: "table_returns j ?evs = table_returns j evs @ [tb]"
    by (simp add: table_returns_append)
  have rj: "returned_jobs ?evs = returned_jobs evs"
    by (simp add: returned_jobs_append)
  have keys: "fst ` set (active_dbs s') = fst ` set (active_dbs s)"
    by (simp add: s' update_keys_present [OF present])
  have j: "j \<in> fst ` set (active_dbs s)"
    using present by (rule key_present)
  then have jn: "j < next_id s"
    by (rule T(4))
  have old: "job_traced cfg evs j (Backing jb)"
    using present by (rule T(5))
  then have new: "job_traced cfg ?evs j (Backing ?jb)"
    by (simp add: job_traced_def table_failure_def more first_failure_snoc)
  have others: "job_result cfg ?evs k = job_result cfg evs k"
    if "k \<in> set (returned_jobs evs)" for k
  proof -
    have "k \<notin> fst ` set (active_dbs s)"
      using that by (rule T(7))
    with j have "k \<noteq> j" by blast
    then show ?thesis by (intro job_result_cong same)
  qed
  show ?thesis
    unfolding traced_def
  proof (intro conjI allI impI ballI)
    show "pending_dbs s' = drop (next_id s') (cfg_databases cfg)"
      using T(1) by (simp add: s')
    show "next_id s' \<le> length (cfg_databases cfg)"
      using T(2) by (simp add: s')
    show "distinct (map fst (active_dbs s'))"
      using T(3) by (simp add: s' AList.distinct_update)
    have m: "map (job_result cfg ?evs) (returned_jobs evs) =
        map (job_result cfg evs) (returned_jobs evs)"
      using others by (intro map_cong) simp_all
    show "group_err s' = first_failure (map (job_result cfg ?evs) (returned_jobs ?evs))"
      unfolding rj m using T(9) by (simp add: s')
  next
    fix k assume "k \<in> fst ` set (active_dbs s')"
    then have "k \<in> fst ` set (active_dbs s)" by (simp only: keys)
    then have "k < next_id s" by (rule T(4))
    then show "k < next_id s'" by (simp add: s')
  next
    fix k js assume k: "map_of (active_dbs s') k = Some js"
    show "job_traced cfg ?evs k js"
    proof (cases "k = j")
      case True
      with k have "js = Backing ?jb" by (simp add: s' AList.update_conv')
      with new True show ?thesis by simp
    next
      case False
      with k have "map_of (active_dbs s) k = Some js" by (simp add: s' AList.update_conv')
      then have "job_traced cfg evs k js" by (rule T(5))
      then show ?thesis by (simp add: job_traced_cong [OF same [OF False]])
    qed
  next
    fix k assume "next_id s' \<le> k"
    then have k: "next_id s \<le> k" by (simp add: s')
    with jn have "k \<noteq> j" by simp
    with T(6) [OF k] show "table_returns k ?evs = []"
      by (simp add: same)
  next
    fix k assume "k \<in> set (returned_jobs ?evs)"
    then have old: "k \<in> set (returned_jobs evs)" by (simp add: rj)
    from T(7) [OF old] show "k \<notin> fst ` set (active_dbs s')" by (simp add: keys)
    from T(8) [OF old] show "k < next_id s'" by (simp add: s')
  qed
qed

lemma traced_job_returns:
  assumes t: "traced cfg evs s" and present: "map_of (active_dbs s) j = Some js"
    and res: "job_result cfg evs j = r"
  shows "traced cfg (evs @ [DatabaseReturns j]) (job_returns j r s)"
proof -
  note T = tracedD [OF t]
  let ?evs = "evs @ [DatabaseReturns j]"
  let ?s = "job_returns j r s"
  have same: "table_returns k ?evs = table_returns k evs" for k
    by (simp add: table_returns_append)
  have rj: "returned_jobs ?evs = returned_jobs evs @ [j]"
    by (simp add: returned_jobs_append)
  have sub: "fst ` set (active_dbs ?s) \<subseteq> fst ` set (active_dbs s)"
    by (simp add: job_returns_def AList.dom_delete_subset)
  have gone: "j \<notin> fst ` set (active_dbs ?s)"
    by (simp add: job_returns_def AList.delete_notin_dom)
  have j: "j \<in> fst ` set (active_dbs s)"
    using present by (rule key_present)
  then have jn: "j < next_id s"
    by (rule T(4))
  show ?thesis
    unfolding traced_def
  proof (intro conjI allI impI ballI)
    show "pending_dbs ?s = drop (next_id ?s) (cfg_databases cfg)"
      using T(1) by (simp add: job_returns_def)
    show "next_id ?s \<le> length (cfg_databases cfg)"
      using T(2) by (simp add: job_returns_def)
    show "distinct (map fst (active_dbs ?s))"
      using T(3) by (simp add: job_returns_def AList.distinct_delete)
    have "group_err ?s = first_error (group_err s) r"
      by (simp add: job_returns_def)
    then show "group_err ?s = first_failure (map (job_result cfg ?evs) (returned_jobs ?evs))"
      using T(9) res
      by (simp add: rj job_result_same [of ?evs evs, OF same] first_failure_snoc)
  next
    fix k assume "k \<in> fst ` set (active_dbs ?s)"
    then have "k \<in> fst ` set (active_dbs s)" using sub by blast
    then have "k < next_id s" by (rule T(4))
    then show "k < next_id ?s" by (simp add: job_returns_def)
  next
    fix k js' assume "map_of (active_dbs ?s) k = Some js'"
    then have "map_of (active_dbs s) k = Some js'"
      by (simp add: job_returns_def AList.delete_conv' split: if_splits)
    then have "job_traced cfg evs k js'" by (rule T(5))
    then show "job_traced cfg ?evs k js'" by (simp add: job_traced_cong [OF same])
  next
    fix k assume "next_id ?s \<le> k"
    then have "next_id s \<le> k" by (simp add: job_returns_def)
    then show "table_returns k ?evs = []"
      using T(6) by (simp add: same)
  next
    fix k assume k: "k \<in> set (returned_jobs ?evs)"
    show "k \<notin> fst ` set (active_dbs ?s)"
    proof (cases "k = j")
      case True
      with gone show ?thesis by simp
    next
      case False
      with k have "k \<in> set (returned_jobs evs)" by (simp add: rj)
      then have "k \<notin> fst ` set (active_dbs s)" by (rule T(7))
      with sub show ?thesis by blast
    qed
    have "k < next_id s"
    proof (cases "k = j")
      case True
      with jn show ?thesis by simp
    next
      case False
      with k have "k \<in> set (returned_jobs evs)" by (simp add: rj)
      then show ?thesis by (rule T(8))
    qed
    then show "k < next_id ?s" by (simp add: job_returns_def)
  qed
qed

lemma traced_DatabaseReturns:
  assumes t: "traced cfg evs s" and st: "step cfg s (DatabaseReturns j) = Some s'"
  shows "traced cfg (evs @ [DatabaseReturns j]) s'"
proof (cases "map_of (active_dbs s) j")
  case None
  with st show ?thesis by simp
next
  case (Some js)
  have old: "job_traced cfg evs j js"
    using Some by (rule tracedD(5) [OF t])
  show ?thesis
  proof (cases js)
    case (ListFailed e)
    with st Some have s': "s' = job_returns j (Some e) s" by simp
    have "job_result cfg evs j = Some e"
      using old ListFailed by (simp add: job_traced_def job_result_def)
    with t Some show ?thesis unfolding s' by (rule traced_job_returns)
  next
    case (Backing jb)
    with st Some have s': "s' = job_returns j (job_err jb) s"
      by (simp split: if_splits)
    have "job_result cfg evs j = job_err jb"
      using old Backing start_job_database [of cfg "cfg_databases cfg ! j"]
      by (auto simp: job_traced_def job_result_def)
    with t Some show ?thesis unfolding s' by (rule traced_job_returns)
  qed
qed

lemma traced_step:
  assumes "traced cfg evs s" and "step cfg s ev = Some s'"
  shows "traced cfg (evs @ [ev]) s'"
proof (cases ev)
  case GoDatabase
  with assms show ?thesis by (simp only: traced_GoDatabase)
next
  case (GoTable j)
  with assms show ?thesis by (simp only: traced_GoTable)
next
  case (TableReturns j tb)
  with assms show ?thesis by (simp only: traced_TableReturns)
next
  case (DatabaseReturns j)
  with assms show ?thesis by (simp only: traced_DatabaseReturns)
qed

lemma traced_exec:
  "traced cfg evs0 s \<Longrightarrow> exec cfg evs s = Some s' \<Longrightarrow> traced cfg (evs0 @ evs) s'"
proof (induction evs arbitrary: s evs0)
  case Nil
  then show ?case by simp
next
  case (Cons ev evs)
  from Cons.prems(2) obtain s1 where s1: "step cfg s ev = Some s1"
    and rest: "exec cfg evs s1 = Some s'"
    by (auto split: option.splits)
  have "traced cfg (evs0 @ [ev]) s1"
    using Cons.prems(1) s1 by (rule traced_step)
  from Cons.IH [OF this rest] show ?case by simp
qed

lemma traced_run:
  assumes "exec cfg evs (init cfg) = Some s"
  shows "traced cfg evs s"
  using traced_exec [OF traced_init assms] by simp

section \<open>The claims\<close>

subsection \<open>C1: the first failure and its siblings\<close>

text \<open>
  Claim C1, as the specification states it, fails on the counts of cancellation. In the
  example run the task of \<open>orders\<close> fails and its error is recorded in the
  \<open>tableGroup\<close> of \<open>appdb\<close>; after that \<open>tableGroup.Go\<close> still starts the task of
  \<open>items\<close>. The job of \<open>appdb\<close> returns that error, which is recorded in \<open>dbGroup\<close>;
  after that \<open>dbGroup.Go\<close> still starts the job of \<open>logsdb\<close>.
\<close>

theorem sibling_started_after_failure:
  "exec demo until_orders (init demo) =
     Some \<lparr>next_id = 1, pending_dbs = [''logsdb''],
       active_dbs = [(0, Backing \<lparr>job_database = ''appdb'', job_pending = [''items''],
                        job_active = [], job_err = Some orders_failed\<rparr>)],
       group_err = None\<rparr> \<and>
   exec demo (until_orders @ [GoTable 0]) (init demo) =
     Some \<lparr>next_id = 1, pending_dbs = [''logsdb''],
       active_dbs = [(0, Backing \<lparr>job_database = ''appdb'', job_pending = [],
                        job_active = [''items''], job_err = Some orders_failed\<rparr>)],
       group_err = None\<rparr> \<and>
   exec demo until_appdb (init demo) =
     Some \<lparr>next_id = 1, pending_dbs = [''logsdb''], active_dbs = [],
       group_err = Some orders_failed\<rparr> \<and>
   exec demo (until_appdb @ [GoDatabase]) (init demo) =
     Some \<lparr>next_id = 2, pending_dbs = [],
       active_dbs = [(1, Backing \<lparr>job_database = ''logsdb'', job_pending = [''events''],
                        job_active = [], job_err = None\<rparr>)],
       group_err = Some orders_failed\<rparr>"
  using run_until_orders run_items_started run_until_appdb run_logsdb_started
  by (intro conjI)

text \<open>
  Claim C1, amended. In every state a run can reach, after any schedule \<open>evs\<close>: the
  error recorded in \<open>dbGroup\<close>, which \<open>dbGroup.Wait()\<close> reports, is the error of the
  first job that returned one, and a job returns the error of \<open>getTables\<close> or of its
  \<open>tableGroup\<close>; the error recorded in the \<open>tableGroup\<close> of a running job is the
  error of the first of its tasks that returned one. Nothing is cancelled: whether
  \<open>Go\<close> starts the next task or the next job depends on the tables or databases left
  and on the limit only, not on a recorded error.
\<close>

theorem first_failure_is_reported:
  assumes "exec cfg evs (init cfg) = Some s"
  shows "group_err s = first_failure (map (job_result cfg evs) (returned_jobs evs)) \<and>
         (\<forall>j jb. map_of (active_dbs s) j = Some (Backing jb) \<longrightarrow>
            job_err jb = table_failure cfg (job_database jb) j evs \<and>
            ((step cfg s (GoTable j) = None) =
               (job_pending jb = [] \<or>
                \<not> admits (sint (cfg_tableLimit cfg)) (length (job_active jb))))) \<and>
         ((step cfg s GoDatabase = None) =
            (pending_dbs s = [] \<or>
             \<not> admits (sint (cfg_dbLimit cfg)) (length (active_dbs s))))"
proof -
  have t: "traced cfg evs s"
    using assms by (rule traced_run)
  note T = tracedD [OF t]
  have "job_err jb = table_failure cfg (job_database jb) j evs"
    if "map_of (active_dbs s) j = Some (Backing jb)" for j jb
    using T(5) [OF that] by (simp add: job_traced_def)
  moreover have "(step cfg s (GoTable j) = None) =
      (job_pending jb = [] \<or> \<not> admits (sint (cfg_tableLimit cfg)) (length (job_active jb)))"
    if "map_of (active_dbs s) j = Some (Backing jb)" for j jb
    using that by (simp split: list.splits)
  moreover have "(step cfg s GoDatabase = None) =
      (pending_dbs s = [] \<or> \<not> admits (sint (cfg_dbLimit cfg)) (length (active_dbs s)))"
    by (simp split: list.splits)
  ultimately show ?thesis using T(9) by blast
qed

theorem first_failure_is_reported_witness:
  "exec demo until_orders (init demo) =
     Some \<lparr>next_id = 1, pending_dbs = [''logsdb''],
       active_dbs = [(0, Backing \<lparr>job_database = ''appdb'', job_pending = [''items''],
                        job_active = [], job_err = Some orders_failed\<rparr>)],
       group_err = None\<rparr> \<and>
   table_failure demo ''appdb'' 0 until_orders = Some orders_failed \<and>
   first_failure (map (job_result demo until_orders) (returned_jobs until_orders)) = None \<and>
   exec demo until_appdb (init demo) =
     Some \<lparr>next_id = 1, pending_dbs = [''logsdb''], active_dbs = [],
       group_err = Some orders_failed\<rparr> \<and>
   first_failure (map (job_result demo until_appdb) (returned_jobs until_appdb)) =
     Some orders_failed"
proof -
  let ?jb = "\<lparr>job_database = ''appdb'', job_pending = [''items''], job_active = [],
              job_err = Some orders_failed\<rparr>"
  let ?s = "\<lparr>next_id = 1, pending_dbs = [''logsdb''], active_dbs = [(0, Backing ?jb)],
             group_err = None\<rparr>"
  note orders = first_failure_is_reported [OF run_until_orders]
  note appdb = first_failure_is_reported [OF run_until_appdb]
  have "map_of (active_dbs ?s) 0 = Some (Backing ?jb)"
    by simp
  with orders have "job_err ?jb = table_failure demo (job_database ?jb) 0 until_orders"
    by blast
  then have job: "table_failure demo ''appdb'' 0 until_orders = Some orders_failed"
    by simp
  have none: "first_failure (map (job_result demo until_orders) (returned_jobs until_orders)) = None"
    using conjunct1 [OF orders] by simp
  have group: "first_failure (map (job_result demo until_appdb) (returned_jobs until_appdb)) =
      Some orders_failed"
    using conjunct1 [OF appdb] by simp
  from run_until_orders run_until_appdb job none group show ?thesis
    by (intro conjI)
qed

subsection \<open>C2: a failed upload and the dump process\<close>

text \<open>
  When the upload fails, \<open>backupTable\<close> returns at line 130, before the \<open>cmd.Wait()\<close> of
  line 133: the process it started is not waited for.
\<close>

lemma upload_failure_skips_wait:
  assumes "pipe_err env = None" and "start_err env = None"
    and "fst (uploadToGCS (upload env) (backupPath hostname (now env) database) table) \<noteq> None"
  shows "task_process (backupTable hostname database table env) = Started"
  using assms
  by (auto simp: backupTable_def Let_def split: option.splits prod.splits)

text \<open>
  Claim C2 does not hold of the code: the task of \<open>users\<close>, whose upload fails in
  \<open>io.Copy\<close> with the error \<open>googleapi: Error 403\<close>, returns the error of the upload
  with its \<open>mysqldump\<close> process started and not waited for; nothing drains the pipe or
  kills the process.
\<close>

theorem upload_failure_leaves_process_unreaped:
  "backupTable ''h'' ''appdb'' ''users''
     ((task_ok (clock 11 0))\<lparr>upload := env_ok\<lparr>copy_err := Some ''googleapi: Error 403''\<rparr>\<rparr>) =
   \<lparr>task_error = Some (''failed to upload backup for table '' @ dq @ ''appdb.users'' @ dq @
        '' to GCS: failed to upload backup for table '' @ dq @ ''users'' @ dq @
        '' to GCS: googleapi: Error 403''),
    task_process = Started,
    task_ops = [NewWriter ''h/2024-05-01-11/appdb/users.sql.gz'', Copy]\<rparr>"
  by (simp add: backupTable_def uploadToGCS_def task_ok_def env_ok_def time_defs)

subsection \<open>C3: the timestamp of the object names\<close>

text \<open>
  Claim C3, as the specification states it, fails: no timestamp is taken before the
  jobs are scheduled, each task reads the clock at line 98. In the example run the
  tables \<open>users\<close> and \<open>items\<close> of \<open>appdb\<close> are both backed up, the first at 10:59
  and the second at 11:30, and the timestamps of their object names differ.
\<close>

theorem timestamps_differ_within_one_run:
  "task_error (run_task demo ''appdb'' ''users'') = None \<and>
   written_object (task_ops (run_task demo ''appdb'' ''users'')) =
     Some ''h/2024-05-01-10/appdb/users.sql.gz'' \<and>
   task_error (run_task demo ''appdb'' ''items'') = None \<and>
   written_object (task_ops (run_task demo ''appdb'' ''items'')) =
     Some ''h/2024-05-01-11/appdb/items.sql.gz'' \<and>
   Format (now (cfg_table_env demo ''appdb'' ''users'')) \<noteq>
     Format (now (cfg_table_env demo ''appdb'' ''items''))"
  by (simp add: eval_defs time_defs)

text \<open>
  Claim C3, amended. Each Table Backup Task reads the clock itself, when it starts, and
  the object it writes has the name made of the host, that reading at the granularity of
  the hour, the database and the table. Two tasks whose readings are in the same hour of
  the same day write objects with the same timestamp.
\<close>

theorem timestamp_read_by_each_task:
  assumes "pipe_err (cfg_table_env cfg d1 t1) = None" and "start_err (cfg_table_env cfg d1 t1) = None"
    and "pipe_err (cfg_table_env cfg d2 t2) = None" and "start_err (cfg_table_env cfg d2 t2) = None"
    and "year (now (cfg_table_env cfg d1 t1)) = year (now (cfg_table_env cfg d2 t2))"
    and "month (now (cfg_table_env cfg d1 t1)) = month (now (cfg_table_env cfg d2 t2))"
    and "day (now (cfg_table_env cfg d1 t1)) = day (now (cfg_table_env cfg d2 t2))"
    and "hour (now (cfg_table_env cfg d1 t1)) = hour (now (cfg_table_env cfg d2 t2))"
  shows "written_object (task_ops (run_task cfg d1 t1)) =
           Some (cfg_hostname cfg @ ''/'' @ Format (now (cfg_table_env cfg d1 t1)) @ ''/'' @ d1 @
                 ''/'' @ t1 @ ''.sql.gz'') \<and>
         written_object (task_ops (run_task cfg d2 t2)) =
           Some (cfg_hostname cfg @ ''/'' @ Format (now (cfg_table_env cfg d1 t1)) @ ''/'' @ d2 @
                 ''/'' @ t2 @ ''.sql.gz'')"
proof -
  have same: "Format (now (cfg_table_env cfg d2 t2)) = Format (now (cfg_table_env cfg d1 t1))"
    using assms(5-8) by (intro Format_hour) simp_all
  have opened: "written_object (task_ops (run_task cfg d t)) =
      Some (cfg_hostname cfg @ ''/'' @ Format (now (cfg_table_env cfg d t)) @ ''/'' @ d @
            ''/'' @ t @ ''.sql.gz'')"
    if "pipe_err (cfg_table_env cfg d t) = None" and "start_err (cfg_table_env cfg d t) = None"
    for d t
    using that
    by (auto simp: run_task_def backupTable_def uploadToGCS_def Let_def backupPath_def
        object_name_def split: option.splits)
  from opened [OF assms(1,2)] opened [OF assms(3,4)] same show ?thesis by simp
qed

theorem timestamp_read_by_each_task_witness:
  "pipe_err (cfg_table_env demo ''appdb'' ''orders'') = None \<and>
   start_err (cfg_table_env demo ''appdb'' ''orders'') = None \<and>
   pipe_err (cfg_table_env demo ''logsdb'' ''events'') = None \<and>
   start_err (cfg_table_env demo ''logsdb'' ''events'') = None \<and>
   hour (now (cfg_table_env demo ''appdb'' ''orders'')) =
     hour (now (cfg_table_env demo ''logsdb'' ''events'')) \<and>
   minute (now (cfg_table_env demo ''appdb'' ''orders'')) \<noteq>
     minute (now (cfg_table_env demo ''logsdb'' ''events'')) \<and>
   written_object (task_ops (run_task demo ''appdb'' ''orders'')) =
     Some ''h/2024-05-01-11/appdb/orders.sql.gz'' \<and>
   written_object (task_ops (run_task demo ''logsdb'' ''events'')) =
     Some ''h/2024-05-01-11/logsdb/events.sql.gz''"
  using timestamp_read_by_each_task [of demo "''appdb''" "''orders''" "''logsdb''" "''events''"]
  by (simp add: eval_defs time_defs)

subsection \<open>C4: the exit status of the dump\<close>

text \<open>
  Claim C4. When \<open>cmd.Wait()\<close> reports that \<open>mysqldump\<close> exited with a non-zero status,
  the task fails; when moreover the pipe, the start and the whole upload succeeded, so
  that every byte was read and uploaded, the task returns the error of \<open>cmd.Wait()\<close>,
  wrapped at line 134.
\<close>

theorem dump_exit_status_dominates:
  assumes "wait_err env = Some e"
  shows "task_error (backupTable hostname database table env) \<noteq> None \<and>
         (pipe_err env = None \<and> start_err env = None \<and>
          fst (uploadToGCS (upload env) (backupPath hostname (now env) database) table) = None \<longrightarrow>
            task_error (backupTable hostname database table env) =
              Some (''failed to wait for mysqldump command: '' @ e))"
  using assms
  by (auto simp: backupTable_def Let_def split: option.splits prod.splits)

theorem dump_exit_status_dominates_witness:
  "wait_err (cfg_table_env demo ''appdb'' ''orders'') = Some ''exit status 2'' \<and>
   pipe_err (cfg_table_env demo ''appdb'' ''orders'') = None \<and>
   start_err (cfg_table_env demo ''appdb'' ''orders'') = None \<and>
   fst (uploadToGCS (upload (cfg_table_env demo ''appdb'' ''orders''))
          (backupPath ''h'' (now (cfg_table_env demo ''appdb'' ''orders'')) ''appdb'') ''orders'') =
     None \<and>
   task_error (backupTable ''h'' ''appdb'' ''orders'' (cfg_table_env demo ''appdb'' ''orders'')) =
     Some ''failed to wait for mysqldump command: exit status 2''"
  using dump_exit_status_dominates
    [of "cfg_table_env demo ''appdb'' ''orders''" "''exit status 2''" "''h''" "''appdb''" "''orders''"]
  by (simp add: demo_def task_ok_def env_ok_def uploadToGCS_def Let_def)

subsection \<open>C5: the object names\<close>

text \<open>
  Claim C5, as the specification states it, fails on the count of collisions: nothing
  escapes a \<open>/\<close> in a name, so the table \<open>c\<close> of a database \<open>a/b\<close> and the table
  \<open>b/c\<close> of a database \<open>a\<close> have the same object name.
\<close>

theorem object_key_collision:
  "(''a/b'', ''c'') \<noteq> (''a'', ''b/c'') \<and>
   object_key ''h'' (clock 11 0) ''a/b'' ''c'' = object_key ''h'' (clock 11 0) ''a'' ''b/c''"
  by (simp add: object_key_eq)

text \<open>
  Claim C5, amended. The object name is \<open><host>/<timestamp>/<schema>/<table>.sql.gz\<close>,
  a function of the host, the reading of the clock, the schema and the table; it
  depends on the reading through its year, month, day and hour only; and two tables
  with the same object name, whatever their timestamps, are the same table of the
  same schema when no schema name has a \<open>/\<close>, or no table name has one.
\<close>

theorem object_key_format_and_injectivity:
  "object_key hostname ts database table =
     hostname @ ''/'' @ Format ts @ ''/'' @ database @ ''/'' @ table @ ''.sql.gz'' \<and>
   (year a = year b \<and> month a = month b \<and> day a = day b \<and> hour a = hour b \<longrightarrow>
      object_key hostname a database table = object_key hostname b database table) \<and>
   ((CHR ''/'' \<notin> set d1 \<and> CHR ''/'' \<notin> set d2 \<or> CHR ''/'' \<notin> set t1 \<and> CHR ''/'' \<notin> set t2) \<and>
    object_key hostname ts1 d1 t1 = object_key hostname ts2 d2 t2 \<longrightarrow>
      d1 = d2 \<and> t1 = t2)"
  using object_key_eq [of hostname ts database table]
    Format_hour [of a b] object_key_inj [of d1 d2 t1 t2 hostname ts1 ts2]
  by (auto simp: object_key_eq)

theorem object_key_format_and_injectivity_witness:
  "object_key ''h'' (clock 10 59) ''appdb'' ''users'' = ''h/2024-05-01-10/appdb/users.sql.gz'' \<and>
   hour (clock 10 59) = hour (clock 10 0) \<and>
   minute (clock 10 59) \<noteq> minute (clock 10 0) \<and>
   CHR ''/'' \<notin> set ''appdb'' \<and>
   object_key ''h'' (clock 10 59) ''appdb'' ''users'' =
     object_key ''h'' (clock 10 0) ''appdb'' ''users''"
  using object_key_format_and_injectivity
    [of "''h''" "clock 10 59" "''appdb''" "''users''" "clock 10 59" "clock 10 0"
        "''appdb''" "''appdb''" "''users''" "''users''" "clock 10 59" "clock 10 0"]
  by (simp add: time_defs)

subsection \<open>C6: the end of a transfer\<close>

text \<open>
  Claim C6. \<open>uploadToGCS\<close> returns no error exactly when the copy, the flush of the
  buffer, the close of the compressor, the close of the remote writer and the fetch of
  the object's attributes all succeed; it has then made these calls in this order. When
  the fetch of the attributes is the only call that fails, after all bytes were written
  and the writer was closed, \<open>uploadToGCS\<close> returns the error of the fetch.
\<close>

theorem upload_succeeds_only_after_verification:
  "(fst (uploadToGCS env path table) = None) =
     (copy_err env = None \<and> flush_err env = None \<and> gzip_close_err env = None \<and>
      writer_close_err env = None \<and> attrs_err env = None) \<and>
   (fst (uploadToGCS env path table) = None \<longrightarrow>
      snd (uploadToGCS env path table) =
        [NewWriter (object_name path table), Copy, Flush, GzipClose, WriterClose,
         Attrs (object_name path table)]) \<and>
   (copy_err env = None \<and> flush_err env = None \<and> gzip_close_err env = None \<and>
    writer_close_err env = None \<and> attrs_err env = Some e \<longrightarrow>
      uploadToGCS env path table =
        (Some (''failed to retrieve attributes for GCS object: '' @ e),
         [NewWriter (object_name path table), Copy, Flush, GzipClose, WriterClose,
          Attrs (object_name path table)]))"
  by (auto simp: uploadToGCS_def Let_def split: option.splits)

theorem upload_succeeds_only_after_verification_witness:
  "fst (uploadToGCS env_ok ''h/2024-05-01-10/appdb'' ''users'') = None \<and>
   snd (uploadToGCS env_ok ''h/2024-05-01-10/appdb'' ''users'') =
     [NewWriter ''h/2024-05-01-10/appdb/users.sql.gz'', Copy, Flush, GzipClose, WriterClose,
      Attrs ''h/2024-05-01-10/appdb/users.sql.gz''] \<and>
   uploadToGCS (env_ok\<lparr>attrs_err := Some ''storage: object doesn't exist''\<rparr>)
       ''h/2024-05-01-10/appdb'' ''users'' =
     (Some ''failed to retrieve attributes for GCS object: storage: object doesn't exist'',
      [NewWriter ''h/2024-05-01-10/appdb/users.sql.gz'', Copy, Flush, GzipClose, WriterClose,
       Attrs ''h/2024-05-01-10/appdb/users.sql.gz''])"
  using upload_succeeds_only_after_verification
          [of env_ok "''h/2024-05-01-10/appdb''" "''users''"]
        upload_succeeds_only_after_verification
          [of "env_ok\<lparr>attrs_err := Some ''storage: object doesn't exist''\<rparr>"
              "''h/2024-05-01-10/appdb''" "''users''" "''storage: object doesn't exist''"]
  by (simp add: env_ok_def object_name_def uploadToGCS_def)

subsection \<open>C7: excluded schemas\<close>

text \<open>
  Claim C7. Whatever the exclusion list holds, a schema whose name is one of its
  segments is not in the list \<open>getDatabases\<close> returns; with the default list,
  \<open>information_schema\<close>, \<open>performance_schema\<close> and \<open>test\<close> are not in it. The jobs
  of a run are made from that list: in every state a run can reach, each running job is
  the job of a database of the list, hence of none that is excluded.
\<close>

theorem excluded_schema_never_enumerated:
  assumes "getDatabases cmd_output skipDBs = Inr (cfg_databases cfg)"
  shows "(\<forall>d \<in> set (Split skipDBs (CHR '','')). d \<notin> set (cfg_databases cfg)) \<and>
         (skipDBs = ''information_schema,performance_schema,test'' \<longrightarrow>
            ''information_schema'' \<notin> set (cfg_databases cfg) \<and>
            ''performance_schema'' \<notin> set (cfg_databases cfg) \<and>
            ''test'' \<notin> set (cfg_databases cfg)) \<and>
         (\<forall>evs s j js. exec cfg evs (init cfg) = Some s \<and> map_of (active_dbs s) j = Some js \<longrightarrow>
            j < length (cfg_databases cfg) \<and>
            cfg_databases cfg ! j \<notin> set (Split skipDBs (CHR '','')) \<and>
            (\<forall>jb. js = Backing jb \<longrightarrow> job_database jb = cfg_databases cfg ! j))"
proof -
  have disj: "set (cfg_databases cfg) \<inter> set (Split skipDBs (CHR '','')) = {}"
    using assms by (rule getDatabases_set)
  then have first: "\<forall>d \<in> set (Split skipDBs (CHR '','')). d \<notin> set (cfg_databases cfg)"
    by blast
  have second: "''information_schema'' \<notin> set (cfg_databases cfg) \<and>
      ''performance_schema'' \<notin> set (cfg_databases cfg) \<and> ''test'' \<notin> set (cfg_databases cfg)"
    if "skipDBs = ''information_schema,performance_schema,test''"
    using first unfolding that default_split by simp
  have third: "j < length (cfg_databases cfg) \<and>
      cfg_databases cfg ! j \<notin> set (Split skipDBs (CHR '','')) \<and>
      (\<forall>jb. js = Backing jb \<longrightarrow> job_database jb = cfg_databases cfg ! j)"
    if run: "exec cfg evs (init cfg) = Some s" and job: "map_of (active_dbs s) j = Some js"
    for evs s j js
  proof -
    note T = tracedD [OF traced_run [OF run]]
    have "j \<in> fst ` set (active_dbs s)"
      using job by (rule key_present)
    then have "j < next_id s" by (rule T(4))
    with T(2) have j: "j < length (cfg_databases cfg)" by simp
    then have "cfg_databases cfg ! j \<in> set (cfg_databases cfg)" by simp
    with disj have out: "cfg_databases cfg ! j \<notin> set (Split skipDBs (CHR '',''))" by blast
    have "job_database jb = cfg_databases cfg ! j" if "js = Backing jb" for jb
      using T(5) [OF job] that by (simp add: job_traced_def)
    with j out show ?thesis by blast
  qed
  from first second third show ?thesis by blast
qed

theorem excluded_schema_never_enumerated_witness:
  "getDatabases
     (Inr (''information_schema'' @ [CHR 0x0A] @ ''test'' @ [CHR 0x0A] @ ''appdb'' @ [CHR 0x0A] @
           ''logsdb'' @ [CHR 0x0A]))
     ''information_schema,performance_schema,test'' = Inr (cfg_databases demo) \<and>
   cfg_databases demo = [''appdb'', ''logsdb''] \<and>
   ''test'' \<in> set (Split ''information_schema,performance_schema,test'' (CHR '','')) \<and>
   ''test'' \<notin> set (cfg_databases demo) \<and>
   ''information_schema'' \<notin> set (cfg_databases demo) \<and>
   ''performance_schema'' \<notin> set (cfg_databases demo) \<and>
   exec demo until_orders (init demo) =
     Some \<lparr>next_id = 1, pending_dbs = [''logsdb''],
       active_dbs = [(0, Backing \<lparr>job_database = ''appdb'', job_pending = [''items''],
                        job_active = [], job_err = Some orders_failed\<rparr>)],
       group_err = None\<rparr> \<and>
   cfg_databases demo ! 0 = ''appdb'' \<and>
   ''appdb'' \<notin> set (Split ''information_schema,performance_schema,test'' (CHR '',''))"
  using excluded_schema_never_enumerated [OF enumeration_demo] enumeration_demo run_until_orders
  by (simp add: default_split demo_def)

subsection \<open>C8: the two limits\<close>

text \<open>
  Claim C8. For all limits \<open>dbLimit\<close> and \<open>tableLimit\<close>, in every state a run can
  reach, after any schedule, no more than \<open>dbLimit\<close> jobs are running, each under
  its own number, and in each running job no more than \<open>tableLimit\<close> tasks are
  running, however many jobs are running. The limits are Go's \<open>uint\<close>, which
  \<open>SetLimit(int(...))\<close> reads as an \<open>int\<close>: a limit of \<open>2 ^ 63\<close> or more is read as
  a negative number and is no limit, and it is then the length of the slice, under
  \<open>2 ^ 63\<close>, that keeps the number of goroutines under the limit.
\<close>

theorem concurrency_budgets_respected:
  assumes "slices_fit cfg" and "exec cfg evs (init cfg) = Some s"
  shows "length (active_dbs s) \<le> unat (cfg_dbLimit cfg) \<and>
         distinct (map fst (active_dbs s)) \<and>
         (\<forall>j jb. map_of (active_dbs s) j = Some (Backing jb) \<longrightarrow>
            length (job_active jb) \<le> unat (cfg_tableLimit cfg))"
proof -
  have b: "bounded cfg s"
    using bounded_exec [OF assms(1) bounded_init assms(2)] .
  have fit: "length (cfg_databases cfg) < 2 ^ 63"
    using assms(1) by (simp add: slices_fit_def)
  have "length (active_dbs s) < 2 ^ 63"
    using b fit by (simp add: bounded_def)
  moreover have "within (sint (cfg_dbLimit cfg)) (length (active_dbs s))"
    using b by (simp add: bounded_def)
  ultimately have outer: "length (active_dbs s) \<le> unat (cfg_dbLimit cfg)"
    by (intro within_unat)
  have inner: "length (job_active jb) \<le> unat (cfg_tableLimit cfg)"
    if "map_of (active_dbs s) j = Some (Backing jb)" for j jb
  proof -
    have "job_bounded cfg jb" using b that by (auto simp: bounded_def)
    then show ?thesis by (intro within_unat) (auto simp: job_bounded_def)
  qed
  from outer inner b show ?thesis by (auto simp: bounded_def)
qed

theorem concurrency_budgets_respected_witness:
  "slices_fit demo \<and>
   exec demo (until_orders @ [GoTable 0]) (init demo) =
     Some \<lparr>next_id = 1, pending_dbs = [''logsdb''],
       active_dbs = [(0, Backing \<lparr>job_database = ''appdb'', job_pending = [],
                        job_active = [''items''], job_err = Some orders_failed\<rparr>)],
       group_err = None\<rparr> \<and>
   length [(0 :: nat, Backing \<lparr>job_database = ''appdb'', job_pending = [],
              job_active = [''items''], job_err = Some orders_failed\<rparr>)] \<le> unat (cfg_dbLimit demo) \<and>
   length [''items''] \<le> unat (cfg_tableLimit demo)"
  using concurrency_budgets_respected [OF slices_fit_demo run_items_started]
    slices_fit_demo run_items_started
  by (simp add: demo_def)

subsection \<open>C9: the failing table in the reported error\<close>

text \<open>
  Claim C9 does not hold of the code. Line 130 names the schema and the table in the
  error of a failed upload; lines 122, 126 and 134 do not, and neither the job (line
  145) nor \<open>main\<close> (line 155) adds a name. In the example run \<open>mysqldump\<close> exits with
  status 2 for the table \<open>orders\<close> of \<open>appdb\<close>: the error of the task, and the error
  \<open>dbGroup.Wait()\<close> reports at the end of the run, is \<open>orders_failed\<close>, in which
  neither \<open>appdb\<close> nor \<open>orders\<close> occurs.
\<close>

theorem table_failure_reported_without_names:
  "task_error (run_task demo ''appdb'' ''orders'') = Some orders_failed \<and>
   map_option wait_result (exec demo whole_run (init demo)) = Some (Some (Some orders_failed)) \<and>
   orders_failed = ''failed to wait for mysqldump command: exit status 2'' \<and>
   \<not> sublist ''appdb'' orders_failed \<and>
   \<not> sublist ''orders'' orders_failed"
proof -
  have "task_error (run_task demo ''appdb'' ''orders'') = Some orders_failed"
    by (simp add: eval_defs)
  moreover have "map_option wait_result (exec demo whole_run (init demo)) =
      Some (Some (Some orders_failed))"
    by (simp add: run_whole wait_result_def)
  moreover have "\<not> sublist ''appdb'' orders_failed"
    by code_simp
  moreover have "\<not> sublist ''orders'' orders_failed"
    by code_simp
  ultimately show ?thesis by (simp add: orders_failed_def)
qed

subsection \<open>C10: how a schema is matched with the exclusion list\<close>

text \<open>
  Claim C10. A schema is excluded exactly when its name is equal to a segment of
  \<open>skipDBs\<close> split at the commas: \<open>contains\<close> compares with \<open>=\<close>, and nothing trims
  a segment or folds its case. With \<open>skipDBs\<close> the string \<open>" test ,TEST"\<close>, whose
  segments differ from \<open>test\<close> by spaces and by case, the schema \<open>test\<close> is kept.
\<close>

theorem exclusion_is_exact_equality:
  "contains skipDBList database = (\<exists>segment \<in> set skipDBList. segment = database) \<and>
   getDatabases (Inr output) skipDBs =
     (case scan_lines [] output of
        Inl e \<Rightarrow> Inl (''failed to read output from mysql command: '' @ e)
      | Inr scanned \<Rightarrow> Inr (filter (\<lambda>d. d \<notin> set (Split skipDBs (CHR '',''))) scanned)) \<and>
   Split '' test ,TEST'' (CHR '','') = ['' test '', ''TEST''] \<and>
   getDatabases (Inr (''test'' @ [CHR 0x0A] @ ''appdb'' @ [CHR 0x0A])) '' test ,TEST'' =
     Inr [''test'', ''appdb'']"
proof -
  have a: "contains skipDBList database = (\<exists>segment \<in> set skipDBList. segment = database)"
    by (simp add: contains_set)
  have c: "Split '' test ,TEST'' (CHR '','') = ['' test '', ''TEST'']"
    by (simp add: Split_def)
  have d: "getDatabases (Inr (''test'' @ [CHR 0x0A] @ ''appdb'' @ [CHR 0x0A])) '' test ,TEST'' =
     Inr [''test'', ''appdb'']"
    by (simp add: getDatabases_def Split_def MaxScanTokenSize_def dropCR_def)
  from a getDatabases_Inr c d show ?thesis by blast
qed

end
